theory Spec2Isabelle
  imports Complex_Main
begin

section \<open>Python strings\<close>

text \<open>
  A Python \<open>str\<close> is modelled as a \<open>string\<close>: a list of characters whose code
  points are below 256. The helpers below are the builtins the modules call.
\<close>

definition code_point :: "char \<Rightarrow> nat" where
  "code_point c = of_char c"

text \<open>\<open>str.isspace\<close> on one character (code points below 256).\<close>

definition py_isspace :: "char \<Rightarrow> bool" where
  "py_isspace c =
     (let n = code_point c
      in (9 \<le> n \<and> n \<le> 13) \<or> (28 \<le> n \<and> n \<le> 32) \<or> n = 133 \<or> n = 160)"

text \<open>The C-level \<open>Py_ISSPACE\<close>: the six ASCII whitespace characters.\<close>

definition c_isspace :: "char \<Rightarrow> bool" where
  "c_isspace c = (let n = code_point c in (9 \<le> n \<and> n \<le> 13) \<or> n = 32)"

text \<open>\<open>s.strip()\<close>: whitespace removed at both ends.\<close>

definition strip :: "string \<Rightarrow> string" where
  "strip s = rev (dropWhile py_isspace (rev (dropWhile py_isspace s)))"

text \<open>\<open>s.split(" ")\<close>: cut at every single space; the result is never empty.\<close>

fun split_sp :: "string \<Rightarrow> string list" where
  "split_sp [] = [[]]"
| "split_sp (c # cs) =
     (if c = CHR '' '' then [] # split_sp cs
      else (case split_sp cs of
              [] \<Rightarrow> [[c]]
            | w # ws \<Rightarrow> (c # w) # ws))"

text \<open>\<open>s.lower()\<close> on one character (code points below 256).\<close>

definition lower_char :: "char \<Rightarrow> char" where
  "lower_char c =
     (let n = code_point c
      in if (65 \<le> n \<and> n \<le> 90) \<or> (192 \<le> n \<and> n \<le> 222 \<and> n \<noteq> 215)
         then char_of (n + 32) else c)"

definition lower :: "string \<Rightarrow> string" where
  "lower s = map lower_char s"

text \<open>\<open>str(n)\<close> for a non-negative integer: its decimal digits.\<close>

definition digit_char :: "nat \<Rightarrow> char" where
  "digit_char d = char_of (48 + d)"

fun str_nat :: "nat \<Rightarrow> string" where
  "str_nat n = (if n < 10 then [digit_char n] else str_nat (n div 10) @ [digit_char (n mod 10)])"

declare str_nat.simps [simp del]

subsection \<open>\<open>int(s, 16)\<close>\<close>

text \<open>
  The builtin \<open>int(s, 16)\<close>, as CPython parses it: a non-ASCII string first has its
  Unicode whitespace replaced by a space and every other non-ASCII character by a
  question mark (below code point 256 there is no decimal digit outside ASCII); then
  leading ASCII whitespace is skipped, one sign is read, an optional \<open>0x\<close> prefix with
  one optional underscore is skipped, a run of hexadecimal digits with single
  underscores between digits is read, and only ASCII whitespace may follow.
  \<open>None\<close> stands for \<open>ValueError\<close>.
\<close>

definition hex_digit_value :: "char \<Rightarrow> nat option" where
  "hex_digit_value c =
     (let n = code_point c
      in if 48 \<le> n \<and> n \<le> 57 then Some (n - 48)
         else if 97 \<le> n \<and> n \<le> 102 then Some (n - 87)
         else if 65 \<le> n \<and> n \<le> 70 then Some (n - 55)
         else None)"

definition is_hex_digit :: "char \<Rightarrow> bool" where
  "is_hex_digit c = (case hex_digit_value c of None \<Rightarrow> False | Some d \<Rightarrow> True)"

definition hex_digit_nat :: "char \<Rightarrow> nat" where
  "hex_digit_nat c = (case hex_digit_value c of None \<Rightarrow> 0 | Some d \<Rightarrow> d)"

definition hex_value :: "string \<Rightarrow> nat" where
  "hex_value ds = foldl (\<lambda>acc c. 16 * acc + hex_digit_nat c) 0 ds"

definition to_ascii_space :: "char \<Rightarrow> char" where
  "to_ascii_space c =
     (let n = code_point c
      in if n < 127 then c
         else if n = 133 \<or> n = 160 then CHR '' ''
         else CHR ''?'')"

definition int_prepare :: "string \<Rightarrow> string" where
  "int_prepare s = (if list_all (\<lambda>c. code_point c < 128) s then s else map to_ascii_space s)"

fun strip_sign :: "string \<Rightarrow> int \<times> string" where
  "strip_sign [] = (1, [])"
| "strip_sign (c # cs) =
     (if c = CHR ''+'' then (1, cs)
      else if c = CHR ''-'' then (- 1, cs)
      else (1, c # cs))"

fun strip_hex_prefix :: "string \<Rightarrow> string" where
  "strip_hex_prefix (a # b # cs) =
     (if a = CHR ''0'' \<and> (b = CHR ''x'' \<or> b = CHR ''X'')
      then (case cs of
              [] \<Rightarrow> cs
            | u # r \<Rightarrow> if u = CHR ''_'' then r else cs)
      else a # b # cs)"
| "strip_hex_prefix cs = cs"

definition digit_or_underscore :: "char \<Rightarrow> bool" where
  "digit_or_underscore c = (is_hex_digit c \<or> c = CHR ''_'')"

fun double_underscore :: "string \<Rightarrow> bool" where
  "double_underscore (a # b # cs) =
     ((a = CHR ''_'' \<and> b = CHR ''_'') \<or> double_underscore (b # cs))"
| "double_underscore cs = False"

definition digit_run_ok :: "string \<Rightarrow> bool" where
  "digit_run_ok run =
     (case run of
        [] \<Rightarrow> False
      | c # cs \<Rightarrow> \<not> (c = CHR ''_'') \<and> \<not> (last run = CHR ''_'') \<and> \<not> double_underscore run)"

definition py_int16 :: "string \<Rightarrow> int option" where
  "py_int16 s =
     (let t = dropWhile c_isspace (int_prepare s);
          (sgn, u) = strip_sign t;
          v = strip_hex_prefix u;
          run = takeWhile digit_or_underscore v;
          rest = dropWhile digit_or_underscore v
      in if digit_run_ok run \<and> list_all c_isspace rest
         then Some (sgn * int (hex_value (filter (\<lambda>c. \<not> (c = CHR ''_'')) run)))
         else None)"

section \<open>Image composer: contrast colour\<close>

text \<open>
  \<open>get_contrast_color\<close> of \<open>modules/image_composer.py\<close>. Every \<open>#\<close> is removed; a
  string that is not six characters long gives white; so does one of whose three
  two-character slices \<open>int(\<dots>, 16)\<close> rejects (the bare \<open>except\<close>). The brightness is
  the true quotient of an integer by 1000, compared with 160; the quotient is modelled
  as a real number.
\<close>

definition brightness :: "int \<Rightarrow> int \<Rightarrow> int \<Rightarrow> real" where
  "brightness r g b = real_of_int (r * 299 + g * 587 + b * 114) / 1000"

definition get_contrast_color :: "string \<Rightarrow> string" where
  "get_contrast_color hex_color0 =
     (let hex_color = filter (\<lambda>c. \<not> (c = CHR ''#'')) hex_color0
      in if \<not> (length hex_color = 6) then ''white''
         else (case py_int16 (take 2 hex_color) of
                 None \<Rightarrow> ''white''
               | Some r \<Rightarrow>
                   (case py_int16 (take 2 (drop 2 hex_color)) of
                      None \<Rightarrow> ''white''
                    | Some g \<Rightarrow>
                        (case py_int16 (take 2 (drop 4 hex_color)) of
                           None \<Rightarrow> ''white''
                         | Some b \<Rightarrow>
                             if brightness r g b > 160 then ''black'' else ''white''))))"

section \<open>Image composer: price text layout\<close>

text \<open>
  A font object of PIL: a TrueType face loaded from a file at a pixel size, or the
  built-in face of \<open>ImageFont.load_default()\<close>.
\<close>

datatype font = FreeType string nat | DefaultFont

text \<open>
  What PIL contributes to the layout: the rendered width \<open>draw.textlength(s, font)\<close>
  and whether a font file can be loaded (\<open>ImageFont.truetype\<close> raises when not).
\<close>

record pil =
  textlength :: "font \<Rightarrow> string \<Rightarrow> real"
  font_file_ok :: "string \<Rightarrow> bool"



text \<open>
  The \<open>for w in words\<close> loop of \<open>split_two_lines\<close>, with its \<open>break\<close> once two
  lines are closed. The state is \<open>(lines, current)\<close>.
\<close>

fun split_loop ::
  "(font \<Rightarrow> string \<Rightarrow> real) \<Rightarrow> font \<Rightarrow> real \<Rightarrow> string list \<Rightarrow> string list \<Rightarrow> string
     \<Rightarrow> string list \<times> string" where
  "split_loop tlen fnt max_width [] lines current = (lines, current)"
| "split_loop tlen fnt max_width (w # ws) lines current =
     (let test = strip (current @ '' '' @ w);
          fits = (tlen fnt test \<le> max_width);
          lines1 = (if fits then lines else if current = [] then lines else lines @ [current]);
          current1 = (if fits then test else w)
      in if length lines1 = 2 then (lines1, current1)
         else split_loop tlen fnt max_width ws lines1 current1)"

text \<open>
  After the loop: \<open>if current and len(lines) < 2: lines.append(current)\<close>, then
  \<open>return lines[:2]\<close>.
\<close>

definition close_two :: "string list \<times> string \<Rightarrow> string list" where
  "close_two state =
     (case state of
        (lines, current) \<Rightarrow>
          take 2 (if current = [] then lines
                  else if length lines < 2 then lines @ [current] else lines))"

definition split_two_lines ::
  "(font \<Rightarrow> string \<Rightarrow> real) \<Rightarrow> string \<Rightarrow> font \<Rightarrow> real \<Rightarrow> string list" where
  "split_two_lines tlen text fnt max_width =
     close_two (split_loop tlen fnt max_width (split_sp text) [] [])"

text \<open>
  The greedy wrap of the specification's text layout: extend the current line word by
  word while it fits; when the next word would overflow, close the current line and
  start a new one with that word. It is \<open>split_loop\<close> without the cap on the number
  of lines, and serves to say which lines \<open>split_two_lines\<close> keeps.
\<close>

fun wrap_loop ::
  "(font \<Rightarrow> string \<Rightarrow> real) \<Rightarrow> font \<Rightarrow> real \<Rightarrow> string list \<Rightarrow> string list \<Rightarrow> string
     \<Rightarrow> string list \<times> string" where
  "wrap_loop tlen fnt max_width [] lines current = (lines, current)"
| "wrap_loop tlen fnt max_width (w # ws) lines current =
     (let test = strip (current @ '' '' @ w);
          fits = (tlen fnt test \<le> max_width);
          lines1 = (if fits then lines else if current = [] then lines else lines @ [current]);
          current1 = (if fits then test else w)
      in wrap_loop tlen fnt max_width ws lines1 current1)"

definition close_all :: "string list \<times> string \<Rightarrow> string list" where
  "close_all state =
     (case state of (lines, current) \<Rightarrow> if current = [] then lines else lines @ [current])"

definition greedy_wrap ::
  "(font \<Rightarrow> string \<Rightarrow> real) \<Rightarrow> string \<Rightarrow> font \<Rightarrow> real \<Rightarrow> string list" where
  "greedy_wrap tlen text fnt max_width =
     close_all (wrap_loop tlen fnt max_width (split_sp text) [] [])"



text \<open>
  A fixed-pitch metric for the examples: every character is half the font size wide
  (the default face counts as size 10).
\<close>

fun font_size :: "font \<Rightarrow> nat" where
  "font_size (FreeType name sz) = sz"
| "font_size DefaultFont = 10"

definition half_em_pil :: pil where
  "half_em_pil =
     \<lparr>textlength = (\<lambda>f s. real (font_size f * length s) / 2), font_file_ok = (\<lambda>name. True)\<rparr>"


text \<open>\<open>" ".join(words)\<close>, which gives back the text that \<open>split(" ")\<close> has cut.\<close>

fun join_sp :: "string list \<Rightarrow> string" where
  "join_sp [] = []"
| "join_sp [w] = w"
| "join_sp (w # v # ws) = w @ '' '' @ join_sp (v # ws)"

section \<open>Badge shapes\<close>

text \<open>
  \<open>get_polygon_for_shape\<close> of \<open>modules/badge_shapes.py\<close>, on integer anchor and size.
  It returns a tag and the data of the shape. The floating-point operations of the
  starburst (\<open>/\<close>, \<open>*\<close>, \<open>math.cos\<close>, \<open>math.sin\<close>, \<open>math.pi\<close>) are modelled by the real
  operations they approximate.
\<close>

datatype shape_data =
    CircleData int int int
  | Points "(real \<times> real) list"
  | NoData

fun starburst_loop ::
  "int \<Rightarrow> int \<Rightarrow> int \<Rightarrow> nat list \<Rightarrow> (real \<times> real) list \<Rightarrow> (real \<times> real) list" where
  "starburst_loop center_x center_y size_px [] points = points"
| "starburst_loop center_x center_y size_px (i # rest) points =
     (let angle = (real i / 30) * 2 * pi;
          r = (if i mod 2 = 0 then real_of_int size_px * 0.5 else real_of_int size_px * 0.35);
          px = real_of_int center_x + r * cos angle;
          py = real_of_int center_y + r * sin angle
      in starburst_loop center_x center_y size_px rest (points @ [(px, py)]))"

definition get_polygon_for_shape :: "string \<Rightarrow> int \<Rightarrow> int \<Rightarrow> int \<Rightarrow> string \<times> shape_data" where
  "get_polygon_for_shape shape_type x y size_px =
     (if lower shape_type = ''circle''
      then (''circle'', CircleData (x + size_px div 2) (y + size_px div 2) (size_px div 2))
      else if lower shape_type = ''starburst_15''
      then (''polygon'',
            Points (starburst_loop (x + size_px div 2) (y + size_px div 2) size_px [0..<30] []))
      else if lower shape_type = ''none''
      then (''none'', NoData)
      else (''circle'', CircleData (x + size_px div 2) (y + size_px div 2) (size_px div 2)))"

section \<open>Sheet row processor\<close>

text \<open>
  \<open>process_sheet\<close> of \<open>modules/processor.py\<close>. Its effects are made explicit: the
  world holds the cells of the sheet, the calls made to the compositor (image path,
  price text, output path) in order, and the lines printed. What the outside answers
  is a parameter: the values read from the sheet, and whether \<open>os.makedirs\<close>,
  \<open>compose_image\<close> and \<open>sheet.update_cell\<close> raise.
\<close>

datatype py_error = IndexError | OtherError string

fun error_text :: "py_error \<Rightarrow> string" where
  "error_text IndexError = ''list index out of range''"
| "error_text (OtherError msg) = msg"

record services =
  get_all_values :: "py_error + string list list"
  makedirs :: "string \<Rightarrow> py_error option"
  compose_image :: "string \<Rightarrow> string \<Rightarrow> string \<Rightarrow> py_error + string"
  update_cell :: "nat \<Rightarrow> nat \<Rightarrow> string \<Rightarrow> py_error option"

record world =
  cells :: "nat \<times> nat \<Rightarrow> string"
  composed :: "(string \<times> string \<times> string) list"
  printed :: "string list"

definition IMAGE_URL_COL :: nat where "IMAGE_URL_COL = 1"
definition PRICE_COL :: nat where "PRICE_COL = 2"
definition OUTPUT_COL :: nat where "OUTPUT_COL = 3"
definition edited_folder :: string where "edited_folder = ''images/edited''"

text \<open>\<open>os.path.join(a, b)\<close> on a POSIX system.\<close>

definition path_join :: "string \<Rightarrow> string \<Rightarrow> string" where
  "path_join a b =
     (case b of
        [] \<Rightarrow> (if a = [] then a else if last a = CHR ''/'' then a else a @ ''/'')
      | c # cs \<Rightarrow>
          if c = CHR ''/'' then b
          else if a = [] then b
          else if last a = CHR ''/'' then a @ b
          else a @ ''/'' @ b)"

text \<open>\<open>row[i]\<close> on a list: \<open>IndexError\<close> out of range.\<close>

definition get_item :: "'a list \<Rightarrow> nat \<Rightarrow> py_error + 'a" where
  "get_item xs i = (if i < length xs then Inr (xs ! i) else Inl IndexError)"

definition output_filename :: "nat \<Rightarrow> string" where
  "output_filename row_index = ''edited_'' @ str_nat row_index @ ''.png''"

definition output_path :: "nat \<Rightarrow> string" where
  "output_path row_index = path_join edited_folder (output_filename row_index)"

definition public_url :: "string \<Rightarrow> nat \<Rightarrow> string" where
  "public_url BASE_URL row_index = BASE_URL @ ''/images/edited/'' @ output_filename row_index"

definition print_line :: "string \<Rightarrow> world \<Rightarrow> world" where
  "print_line line w = w\<lparr>printed := printed w @ [line]\<rparr>"

definition row_error_line :: "nat \<Rightarrow> py_error \<Rightarrow> string" where
  "row_error_line row_index e =
     ''Error processing row '' @ str_nat row_index @ '': '' @ error_text e"

text \<open>
  The body of the \<open>for\<close> loop for one row. The two field reads stand before the
  \<open>try\<close>, so their \<open>IndexError\<close> leaves the loop; everything \<open>compose_image\<close> or
  \<open>update_cell\<close> raises is caught, printed, and the loop goes on. The first component
  of the result is the exception that leaves the loop, if any.
\<close>

definition process_row ::
  "services \<Rightarrow> string \<Rightarrow> nat \<Rightarrow> string list \<Rightarrow> world \<Rightarrow> py_error option \<times> world" where
  "process_row env BASE_URL row_index row w =
     (case get_item row (IMAGE_URL_COL - 1) of
        Inl e \<Rightarrow> (Some e, w)
      | Inr image_url \<Rightarrow>
          (case get_item row (PRICE_COL - 1) of
             Inl e \<Rightarrow> (Some e, w)
           | Inr price_text \<Rightarrow>
               if image_url = [] then (None, w)
               else
                 (let w1 = w\<lparr>composed := composed w
                              @ [(image_url, price_text, output_path row_index)]\<rparr>
                  in case compose_image env image_url price_text (output_path row_index) of
                       Inl e \<Rightarrow> (None, print_line (row_error_line row_index e) w1)
                     | Inr written \<Rightarrow>
                         (case update_cell env row_index OUTPUT_COL
                                 (public_url BASE_URL row_index) of
                            Some e \<Rightarrow> (None, print_line (row_error_line row_index e) w1)
                          | None \<Rightarrow>
                              (None,
                               print_line
                                 (''Row '' @ str_nat row_index @ '': Updated ''
                                    @ public_url BASE_URL row_index)
                                 (w1\<lparr>cells := (cells w1)
                                     ((row_index, OUTPUT_COL) := public_url BASE_URL row_index)\<rparr>))))))"

fun process_rows ::
  "services \<Rightarrow> string \<Rightarrow> nat \<Rightarrow> string list list \<Rightarrow> world \<Rightarrow> py_error option \<times> world" where
  "process_rows env BASE_URL row_index [] w = (None, w)"
| "process_rows env BASE_URL row_index (row # rest) w =
     (case process_row env BASE_URL row_index row w of
        (Some e, w1) \<Rightarrow> (Some e, w1)
      | (None, w1) \<Rightarrow> process_rows env BASE_URL (Suc row_index) rest w1)"

definition process_sheet :: "services \<Rightarrow> string \<Rightarrow> world \<Rightarrow> py_error option \<times> world" where
  "process_sheet env BASE_URL w =
     (case get_all_values env of
        Inl e \<Rightarrow> (Some e, w)
      | Inr vals \<Rightarrow>
          (case makedirs env edited_folder of
             Some e \<Rightarrow> (Some e, w)
           | None \<Rightarrow>
               (case process_rows env BASE_URL 1 vals w of
                  (Some e, w1) \<Rightarrow> (Some e, w1)
                | (None, w1) \<Rightarrow> (None, print_line ''Processing completed.'' w1))))"

text \<open>
  For the examples: a sheet that is read without error, a compositor that cannot open
  \<open>bad.png\<close> and writes every other image, and an empty world.
\<close>

definition example_services :: "string list list \<Rightarrow> services" where
  "example_services vals =
     \<lparr>get_all_values = Inr vals,
      makedirs = (\<lambda>path. None),
      compose_image = (\<lambda>image_path price_text out.
         if image_path = ''bad.png'' then Inl (OtherError ''cannot identify image file'')
         else Inr (''/srv/'' @ out)),
      update_cell = (\<lambda>r c v. None)\<rparr>"

definition empty_world :: world where
  "empty_world = \<lparr>cells = (\<lambda>cell. []), composed = [], printed = []\<rparr>"

subsection \<open>Predicates on rows\<close>

text \<open>
  The test \<open>if not image_url: continue\<close> read on the row: the row has a first cell and the
  cell is not the empty string.
\<close>

definition has_image_url :: "string list \<Rightarrow> bool" where
  "has_image_url row = (case row of [] \<Rightarrow> False | image_url # rest \<Rightarrow> \<not> (image_url = []))"

text \<open>
  What the body of the loop leaves behind for a row it reaches with an image URL: the call of the
  compositor, and then either the line printed by the \<open>except\<close> branch or the public URL in the
  output cell.
\<close>

definition row_processed :: "services \<Rightarrow> string \<Rightarrow> nat \<Rightarrow> string list \<Rightarrow> world \<Rightarrow> bool" where
  "row_processed env BASE_URL row_index row w =
     ((hd row, row ! 1, output_path row_index) \<in> set (composed w)
      \<and> (case compose_image env (hd row) (row ! 1) (output_path row_index) of
            Inl e \<Rightarrow> row_error_line row_index e \<in> set (printed w)
          | Inr written \<Rightarrow>
              (case update_cell env row_index OUTPUT_COL (public_url BASE_URL row_index) of
                 Some e \<Rightarrow> row_error_line row_index e \<in> set (printed w)
               | None \<Rightarrow> cells w (row_index, OUTPUT_COL) = public_url BASE_URL row_index)))"


section \<open>Backend: users, usage counters and API keys\<close>

text \<open>
  The \<open>users\<close> table of \<open>app/database.py\<close> is the list of its rows in insertion order;
  \<open>query(User).filter(p).first()\<close> is \<open>find p\<close>. The table's \<open>unique\<close> constraints on
  \<open>email\<close> and \<open>api_key\<close> are checked when a change is committed.
\<close>

record user =
  user_id :: nat
  email :: string
  hashed_password :: string
  api_key :: string
  monthly_edits :: int
  total_edits :: int
  plan_name :: string
  plan_renewal_date :: "string option"
  created_at :: nat

datatype backend_error =
    ValueError string
  | IntegrityError
  | HTTPException nat string

definition unique_ok :: "user list \<Rightarrow> bool" where
  "unique_ok db = (distinct (map email db) \<and> distinct (map api_key db))"

definition commit :: "user list \<Rightarrow> backend_error + user list" where
  "commit db = (if unique_ok db then Inr db else Inl IntegrityError)"

text \<open>
  \<open>_generate_api_key\<close>: the \<open>while True\<close> loop draws a key and returns it when no row
  has it. The keys that \<open>secrets.token_hex(24)\<close> yields, in order, are the list
  \<open>tokens\<close>; \<open>None\<close> says that the loop has not returned on the tokens given.
\<close>

fun generate_api_key :: "user list \<Rightarrow> string list \<Rightarrow> (string \<times> string list) option" where
  "generate_api_key db [] = None"
| "generate_api_key db (key # tokens) =
     (case find (\<lambda>u. api_key u = key) db of
        None \<Rightarrow> Some (key, tokens)
      | Some existing \<Rightarrow> generate_api_key db tokens)"

definition next_id :: "user list \<Rightarrow> nat" where
  "next_id db = Suc (fold max (map user_id db) 0)"

text \<open>
  \<open>create_user\<close>. The password hash and the clock are parameters. An
  \<open>IntegrityError\<close> of the commit is turned into a \<open>ValueError\<close>; every other exception
  is raised again.
\<close>

definition create_user ::
  "(string \<Rightarrow> string) \<Rightarrow> nat \<Rightarrow> string list \<Rightarrow> string \<Rightarrow> string \<Rightarrow> user list
     \<Rightarrow> (backend_error + user \<times> user list) option" where
  "create_user hash_password now tokens email_arg password db =
     (case find (\<lambda>u. email u = email_arg) db of
        Some existing_user \<Rightarrow> Some (Inl (ValueError ''User already exists''))
      | None \<Rightarrow>
          (case generate_api_key db tokens of
             None \<Rightarrow> None
           | Some (key, tokens1) \<Rightarrow>
               (let new_user =
                      \<lparr>user_id = next_id db, email = email_arg,
                       hashed_password = hash_password password, api_key = key,
                       monthly_edits = 0, total_edits = 0, plan_name = ''Free'',
                       plan_renewal_date = None, created_at = now\<rparr>
                in case commit (db @ [new_user]) of
                     Inl e \<Rightarrow>
                       Some (Inl (ValueError
                          ''User already exists or database constraint violated''))
                   | Inr db1 \<Rightarrow> Some (Inr (new_user, db1)))))"

text \<open>The row that \<open>first()\<close> returned, changed in place.\<close>

fun update_first :: "(user \<Rightarrow> bool) \<Rightarrow> (user \<Rightarrow> user) \<Rightarrow> user list \<Rightarrow> user list" where
  "update_first p f [] = []"
| "update_first p f (u # us) = (if p u then f u # us else u # update_first p f us)"

definition regenerate_api_key ::
  "string list \<Rightarrow> string \<Rightarrow> user list \<Rightarrow> (backend_error + string \<times> user list) option" where
  "regenerate_api_key tokens email_arg db =
     (case find (\<lambda>u. email u = email_arg) db of
        None \<Rightarrow> Some (Inl (ValueError ''User not found''))
      | Some found \<Rightarrow>
          (case generate_api_key db tokens of
             None \<Rightarrow> None
           | Some (new_key, tokens1) \<Rightarrow>
               (case commit (update_first (\<lambda>u. email u = email_arg)
                               (\<lambda>u. u\<lparr>api_key := new_key\<rparr>) db) of
                  Inl e \<Rightarrow> Some (Inl e)
                | Inr db1 \<Rightarrow> Some (Inr (new_key, db1)))))"

definition increment_usage :: "string \<Rightarrow> int \<Rightarrow> user list \<Rightarrow> user list" where
  "increment_usage email_arg edits db =
     update_first (\<lambda>u. email u = email_arg)
       (\<lambda>u. u\<lparr>monthly_edits := monthly_edits u + edits, total_edits := total_edits u + edits\<rparr>)
       db"

text \<open>
  \<open>trigger_automation\<close> of \<open>app/integrations/automation_client.py\<close>: the POST answers
  with a status code or raises; every exception is caught and gives \<open>False\<close>.
\<close>

datatype http_result = Status nat | Unreachable

definition trigger_automation :: "(string \<Rightarrow> http_result) \<Rightarrow> string \<Rightarrow> bool" where
  "trigger_automation post user_api_key =
     (case post user_api_key of
        Status code \<Rightarrow> code = 200
      | Unreachable \<Rightarrow> False)"

text \<open>
  \<open>get_current_user\<close> and \<open>automation_run\<close> of \<open>app/main.py\<close>. Decoding the token is
  a parameter: it gives the claims of the token, or \<open>None\<close>.
\<close>

definition get_current_user ::
  "(string \<Rightarrow> (string \<times> string) list option) \<Rightarrow> string \<Rightarrow> user list \<Rightarrow> backend_error + user" where
  "get_current_user decode_access_token token db =
     (case decode_access_token token of
        None \<Rightarrow> Inl (HTTPException 401 ''Invalid authentication credentials'')
      | Some payload \<Rightarrow>
          if payload = [] then Inl (HTTPException 401 ''Invalid authentication credentials'')
          else
            (case map_of payload ''sub'' of
               None \<Rightarrow> Inl (HTTPException 404 ''User not found'')
             | Some sub \<Rightarrow>
                 (case find (\<lambda>u. email u = sub) db of
                    None \<Rightarrow> Inl (HTTPException 404 ''User not found'')
                  | Some found \<Rightarrow> Inr found)))"

record run_response =
  status :: string
  automationResponse :: bool

definition automation_run ::
  "(string \<Rightarrow> (string \<times> string) list option) \<Rightarrow> (string \<Rightarrow> http_result) \<Rightarrow> string \<Rightarrow> user list
     \<Rightarrow> (backend_error + run_response) \<times> user list" where
  "automation_run decode_access_token post token db =
     (case get_current_user decode_access_token token db of
        Inl e \<Rightarrow> (Inl e, db)
      | Inr current_user \<Rightarrow>
          (let result = trigger_automation post (api_key current_user);
               db1 = increment_usage (email current_user) 1 db
           in (Inr \<lparr>status = ''started'', automationResponse = result\<rparr>, db1)))"

text \<open>For the examples: two users, and a token decoder that knows one token each.\<close>

definition alice :: user where
  "alice = \<lparr>user_id = 1, email = ''alice@example.com'', hashed_password = ''h1'',
            api_key = ''aa'', monthly_edits = 4, total_edits = 9, plan_name = ''Free'',
            plan_renewal_date = None, created_at = 0\<rparr>"

definition bob :: user where
  "bob = \<lparr>user_id = 2, email = ''bob@example.com'', hashed_password = ''h2'',
          api_key = ''bb'', monthly_edits = 0, total_edits = 0, plan_name = ''Free'',
          plan_renewal_date = None, created_at = 1\<rparr>"

definition example_decode :: "string \<Rightarrow> (string \<times> string) list option" where
  "example_decode token =
     (if token = ''token-alice'' then Some [(''sub'', ''alice@example.com''), (''exp'', ''1'')]
      else if token = ''token-bob'' then Some [(''sub'', ''bob@example.com''), (''exp'', ''1'')]
      else None)"

text \<open>The user that \<open>create_user\<close> makes for Carol at time 7 with the key \<open>cc\<close>.\<close>

definition carol :: user where
  "carol = \<lparr>user_id = 3, email = ''carol@example.com'', hashed_password = ''pw'',
            api_key = ''cc'', monthly_edits = 0, total_edits = 0, plan_name = ''Free'',
            plan_renewal_date = None, created_at = 7\<rparr>"

section \<open>Properties: contrast colour\<close>

lemma hex_digit_facts:
  assumes "hex_digit_value c = Some d"
  shows "code_point c < 128" "\<not> c_isspace c" "c \<noteq> CHR ''+''" "c \<noteq> CHR ''-''"
    "c \<noteq> CHR ''x''" "c \<noteq> CHR ''X''" "c \<noteq> CHR ''_''" "is_hex_digit c"
    "hex_digit_nat c = d" "d < 16" "digit_or_underscore c"
  using assms
  by (auto simp: hex_digit_value_def c_isspace_def is_hex_digit_def hex_digit_nat_def
      digit_or_underscore_def code_point_def Let_def split: if_splits)

lemma py_int16_two_digits:
  assumes a: "hex_digit_value a = Some x" and b: "hex_digit_value b = Some y"
  shows "py_int16 [a, b] = Some (int (16 * x + y))"
proof -
  note fa = hex_digit_facts [OF a] and fb = hex_digit_facts [OF b]
  have prep: "int_prepare [a, b] = [a, b]"
    using fa(1) fb(1) by (simp add: int_prepare_def)
  have run: "takeWhile digit_or_underscore [a, b] = [a, b]"
    and rest: "dropWhile digit_or_underscore [a, b] = []"
    using fa(11) fb(11) by simp_all
  have ok: "digit_run_ok [a, b]"
    using fa(7) fb(7) by (simp add: digit_run_ok_def)
  have val: "hex_value (filter (\<lambda>c. \<not> (c = CHR ''_'')) [a, b]) = 16 * x + y"
    using fa(7,9) fb(7,9) by (simp add: hex_value_def)
  show ?thesis
    unfolding py_int16_def prep
    using fa(2,3,4) fb(5,6) run rest ok val by (simp add: Let_def)
qed

text \<open>
  Claim C5. For a colour that, once every \<open>#\<close> is removed, is six hexadecimal digits
  with components R, G and B, the text colour is black when
  \<open>0.299 R + 0.587 G + 0.114 B\<close> is strictly greater than 160 and white otherwise; at
  \<open>#A0A0A0\<close>, whose luminance is exactly 160, it is white.
\<close>

theorem get_contrast_color_luminance:
  assumes six: "filter (\<lambda>c. \<not> (c = CHR ''#'')) hex_color = [r1, r2, g1, g2, b1, b2]"
    and r: "hex_digit_value r1 = Some rh" "hex_digit_value r2 = Some rl"
    and g: "hex_digit_value g1 = Some gh" "hex_digit_value g2 = Some gl"
    and b: "hex_digit_value b1 = Some bh" "hex_digit_value b2 = Some bl"
  shows "get_contrast_color hex_color =
           (if 0.299 * real (16 * rh + rl) + 0.587 * real (16 * gh + gl)
                 + 0.114 * real (16 * bh + bl) > 160
            then ''black'' else ''white'')
         \<and> get_contrast_color ''#A0A0A0'' = ''white''"
proof
  have lum: "brightness (int R) (int G) (int B) > 160 \<longleftrightarrow>
      0.299 * real R + 0.587 * real G + 0.114 * real B > 160" for R G B :: nat
    by (simp add: brightness_def field_simps)
  show "get_contrast_color hex_color =
           (if 0.299 * real (16 * rh + rl) + 0.587 * real (16 * gh + gl)
                 + 0.114 * real (16 * bh + bl) > 160
            then ''black'' else ''white'')"
    unfolding get_contrast_color_def six Let_def
    using py_int16_two_digits [OF r] py_int16_two_digits [OF g] py_int16_two_digits [OF b]
      lum [of "16 * rh + rl" "16 * gh + gl" "16 * bh + bl"]
    by simp
  show "get_contrast_color ''#A0A0A0'' = ''white''"
    by code_simp
qed

theorem get_contrast_color_luminance_witness:
  "get_contrast_color ''#FFFFFF'' = ''black'' \<and> get_contrast_color ''#808080'' = ''white''"
proof -
  have f: "hex_digit_value CHR ''F'' = Some 15" and e: "hex_digit_value CHR ''8'' = Some 8"
    and z: "hex_digit_value CHR ''0'' = Some 0"
    by (simp_all add: hex_digit_value_def code_point_def)
  have "filter (\<lambda>c. \<not> (c = CHR ''#'')) ''#FFFFFF'' = ''FFFFFF''" by simp
  from get_contrast_color_luminance [OF this f f f f f f]
  have 1: "get_contrast_color ''#FFFFFF'' = ''black''" by simp
  have "filter (\<lambda>c. \<not> (c = CHR ''#'')) ''#808080'' = ''808080''" by simp
  from get_contrast_color_luminance [OF this e z e z e z]
  have 2: "get_contrast_color ''#808080'' = ''white''" by simp
  show ?thesis using 1 2 by simp
qed

text \<open>
  Claim C10, as stated, fails: \<open>int(s, 16)\<close> also reads a sign or whitespace beside a
  digit, so \<open>#FFFF+F\<close>, which is not six hexadecimal digits, has the components 255,
  255 and 15 and is given black.
\<close>

theorem get_contrast_color_not_hex_counterexample:
  "\<not> list_all is_hex_digit (filter (\<lambda>c. \<not> (c = CHR ''#'')) ''#FFFF+F'')
   \<and> get_contrast_color ''#FFFF+F'' = ''black''"
  by code_simp

text \<open>
  Claim C10, amended. \<open>get_contrast_color\<close> is total and returns black or white for
  every string; it returns white whenever the string, once every \<open>#\<close> is removed, is
  not six characters long, and whenever \<open>int(\<dots>, 16)\<close> rejects one of its three
  two-character slices.
\<close>

theorem get_contrast_color_total:
  "(get_contrast_color s = ''black'' \<or> get_contrast_color s = ''white'')
   \<and> (length (filter (\<lambda>c. \<not> (c = CHR ''#'')) s) \<noteq> 6 \<longrightarrow> get_contrast_color s = ''white'')
   \<and> (py_int16 (take 2 (filter (\<lambda>c. \<not> (c = CHR ''#'')) s)) = None
        \<or> py_int16 (take 2 (drop 2 (filter (\<lambda>c. \<not> (c = CHR ''#'')) s))) = None
        \<or> py_int16 (take 2 (drop 4 (filter (\<lambda>c. \<not> (c = CHR ''#'')) s))) = None
       \<longrightarrow> get_contrast_color s = ''white'')"
  by (auto simp: get_contrast_color_def Let_def split: option.splits)

theorem get_contrast_color_total_witness:
  "get_contrast_color ''#12345'' = ''white'' \<and> get_contrast_color ''#GG0000'' = ''white''"
proof -
  have 1: "length (filter (\<lambda>c. \<not> (c = CHR ''#'')) ''#12345'') \<noteq> 6" by simp
  have 2: "py_int16 (take 2 (filter (\<lambda>c. \<not> (c = CHR ''#'')) ''#GG0000'')) = None" by code_simp
  show ?thesis
    using get_contrast_color_total [of "''#12345''"] get_contrast_color_total [of "''#GG0000''"] 1 2
    by blast
qed

section \<open>Properties: price text layout\<close>

lemma wrap_loop_extends:
  "\<exists>extra c. wrap_loop tlen fnt mw ws lines cur = (lines @ extra, c)"
proof (induction ws arbitrary: lines cur)
  case Nil
  show ?case by simp
next
  case (Cons w ws)
  let ?test = "strip (cur @ '' '' @ w)"
  let ?fits = "tlen fnt ?test \<le> mw"
  let ?lines1 = "if ?fits then lines else if cur = [] then lines else lines @ [cur]"
  let ?cur1 = "if ?fits then ?test else w"
  obtain extra c where "wrap_loop tlen fnt mw ws ?lines1 ?cur1 = (?lines1 @ extra, c)"
    using Cons.IH by blast
  moreover have "\<exists>pre. ?lines1 = lines @ pre" by simp
  ultimately show ?case
    by (auto simp: Let_def)
qed

lemma close_two_full: "length l = 2 \<Longrightarrow> close_two (l, c) = l"
  by (simp add: close_two_def)

lemma close_all_full: "length l = 2 \<Longrightarrow> take 2 (close_all (l @ extra, c)) = l"
  by (simp add: close_all_def)

lemma close_two_below: "length l < 2 \<Longrightarrow> close_two (l, c) = take 2 (close_all (l, c))"
  by (simp add: close_two_def close_all_def)

lemma split_loop_take2:
  "length lines < 2 \<Longrightarrow>
   close_two (split_loop tlen fnt mw ws lines cur)
     = take 2 (close_all (wrap_loop tlen fnt mw ws lines cur))"
proof (induction ws arbitrary: lines cur)
  case Nil
  then show ?case by (simp add: close_two_below)
next
  case (Cons w ws)
  let ?test = "strip (cur @ '' '' @ w)"
  let ?fits = "tlen fnt ?test \<le> mw"
  let ?lines1 = "if ?fits then lines else if cur = [] then lines else lines @ [cur]"
  let ?cur1 = "if ?fits then ?test else w"
  have step_w: "wrap_loop tlen fnt mw (w # ws) lines cur = wrap_loop tlen fnt mw ws ?lines1 ?cur1"
    by (simp add: Let_def)
  show ?case
  proof (cases "length ?lines1 = 2")
    case True
    then have s: "split_loop tlen fnt mw (w # ws) lines cur = (?lines1, ?cur1)"
      by (simp add: Let_def)
    obtain extra c where m: "wrap_loop tlen fnt mw ws ?lines1 ?cur1 = (?lines1 @ extra, c)"
      using wrap_loop_extends by blast
    show ?thesis
      unfolding s step_w m close_two_full [OF True] close_all_full [OF True] ..
  next
    case False
    then have s: "split_loop tlen fnt mw (w # ws) lines cur
        = split_loop tlen fnt mw ws ?lines1 ?cur1"
      by (simp add: Let_def)
    have "length ?lines1 \<le> 2"
      using Cons.prems by simp
    with False have "length ?lines1 < 2"
      by linarith
    from Cons.IH [OF this] show ?thesis
      unfolding s step_w .
  qed
qed

lemma split_two_lines_length: "length (split_two_lines tlen text fnt max_width) \<le> 2"
  by (cases "split_loop tlen fnt max_width (split_sp text) [] []")
    (simp add: split_two_lines_def close_two_def)

text \<open>
  Claim C1, as stated, fails: once two lines are closed the loop stops, and the word
  that closed the second line and every later word are left out. With characters 25
  pixels wide and 150 pixels of width, \<open>10.00 USD each\<close> is laid out as \<open>10.00\<close> and
  \<open>USD\<close>; the word \<open>each\<close> is in neither line.
\<close>

theorem split_two_lines_drops_words_counterexample:
  "split_two_lines (textlength half_em_pil) ''10.00 USD each'' (FreeType ''arialbd.ttf'' 50) 150
     = [''10.00'', ''USD'']
   \<and> ''each'' \<in> set (split_sp ''10.00 USD each'')
   \<and> ''each'' \<notin> set (concat (map split_sp
        (split_two_lines (textlength half_em_pil) ''10.00 USD each''
           (FreeType ''arialbd.ttf'' 50) 150)))"
  by code_simp

text \<open>
  Claim C1, amended. For every price text \<open>split_two_lines\<close> returns at most two lines,
  and they are the first two lines of the greedy wrap of the text: when the text would
  need a third line, the words from the third line on are left out.
\<close>

theorem split_two_lines_first_two:
  "length (split_two_lines tlen text fnt max_width) \<le> 2
   \<and> split_two_lines tlen text fnt max_width = take 2 (greedy_wrap tlen text fnt max_width)"
proof -
  have "close_two (split_loop tlen fnt max_width (split_sp text) [] [])
      = take 2 (close_all (wrap_loop tlen fnt max_width (split_sp text) [] []))"
    by (rule split_loop_take2) simp
  then have "split_two_lines tlen text fnt max_width
      = take 2 (greedy_wrap tlen text fnt max_width)"
    by (simp add: split_two_lines_def greedy_wrap_def)
  then show ?thesis
    using split_two_lines_length [of tlen "text" fnt max_width] by simp
qed

theorem split_two_lines_first_two_witness:
  "split_two_lines (textlength half_em_pil) ''10.00 USD each'' (FreeType ''arialbd.ttf'' 50) 150
     = take 2 [''10.00'', ''USD'', ''each'']"
proof -
  have "greedy_wrap (textlength half_em_pil) ''10.00 USD each'' (FreeType ''arialbd.ttf'' 50) 150
      = [''10.00'', ''USD'', ''each'']"
    by code_simp
  then show ?thesis
    using split_two_lines_first_two [of "textlength half_em_pil" "''10.00 USD each''"
        "FreeType ''arialbd.ttf'' 50" 150]
    by simp
qed

subsection \<open>Texts wider than the badge\<close>


lemma join_sp_Cons: "ws \<noteq> [] \<Longrightarrow> join_sp (w # ws) = w @ '' '' @ join_sp ws"
  by (cases ws) simp_all













section \<open>Properties: badge shapes\<close>

lemma starburst_loop_map:
  "starburst_loop cx cy s is acc =
     acc @ map (\<lambda>i. (real_of_int cx
                        + (if i mod 2 = 0 then real_of_int s * 0.5 else real_of_int s * 0.35)
                          * cos ((real i / 30) * 2 * pi),
                      real_of_int cy
                        + (if i mod 2 = 0 then real_of_int s * 0.5 else real_of_int s * 0.35)
                          * sin ((real i / 30) * 2 * pi))) is"
  by (induction "is" arbitrary: acc) (simp_all add: Let_def)

text \<open>
  Claim C6. For every anchor \<open>(x, y)\<close> and size, a shape name that reads
  \<open>starburst_15\<close> in lower case gives a polygon of exactly 30 vertices; vertex \<open>i\<close>
  lies at angle \<open>2\<pi>i/30\<close> from the centre \<open>(x + size // 2, y + size // 2)\<close> of the
  box, at radius \<open>0.5 size\<close> when \<open>i\<close> is even and \<open>0.35 size\<close> when it is odd.
\<close>

theorem starburst_15_vertices:
  assumes "lower shape_type = ''starburst_15''"
  shows "\<exists>points.
     get_polygon_for_shape shape_type x y size_px = (''polygon'', Points points)
     \<and> length points = 30
     \<and> (\<forall>i<30. points ! i =
          (real_of_int (x + size_px div 2)
             + (if even i then 0.5 * real_of_int size_px else 0.35 * real_of_int size_px)
               * cos (2 * pi * real i / 30),
           real_of_int (y + size_px div 2)
             + (if even i then 0.5 * real_of_int size_px else 0.35 * real_of_int size_px)
               * sin (2 * pi * real i / 30)))"
proof -
  let ?cx = "x + size_px div 2" and ?cy = "y + size_px div 2"
  let ?points = "starburst_loop ?cx ?cy size_px [0..<30] []"
  have shape: "get_polygon_for_shape shape_type x y size_px = (''polygon'', Points ?points)"
    using assms by (simp add: get_polygon_for_shape_def)
  have len: "length ?points = 30"
    by (simp add: starburst_loop_map)
  have vertex: "?points ! i =
          (real_of_int ?cx
             + (if even i then 0.5 * real_of_int size_px else 0.35 * real_of_int size_px)
               * cos (2 * pi * real i / 30),
           real_of_int ?cy
             + (if even i then 0.5 * real_of_int size_px else 0.35 * real_of_int size_px)
               * sin (2 * pi * real i / 30))" if "i < 30" for i
  proof -
    have a: "(real i / 30) * 2 * pi = 2 * pi * real i / 30" by simp
    have "?points ! i = (real_of_int ?cx
                        + (if i mod 2 = 0 then real_of_int size_px * 0.5 else real_of_int size_px * 0.35)
                          * cos ((real i / 30) * 2 * pi),
                      real_of_int ?cy
                        + (if i mod 2 = 0 then real_of_int size_px * 0.5 else real_of_int size_px * 0.35)
                          * sin ((real i / 30) * 2 * pi))"
      using that unfolding starburst_loop_map by (simp del: upt_Suc of_int_add)
    then show ?thesis
      unfolding a by (simp add: even_iff_mod_2_eq_zero mult.commute)
  qed
  from shape len vertex show ?thesis by blast
qed

theorem starburst_15_vertices_witness:
  "\<exists>points.
     get_polygon_for_shape ''Starburst_15'' 840 40 200 = (''polygon'', Points points)
     \<and> length points = 30 \<and> points ! 0 = (1040, 140)"
proof -
  have l: "lower ''Starburst_15'' = ''starburst_15''"
    by code_simp
  from starburst_15_vertices [OF l, of 840 40 200] obtain points where
    p: "get_polygon_for_shape ''Starburst_15'' 840 40 200 = (''polygon'', Points points)"
       "length points = 30"
    and v: "\<forall>i<30. points ! i =
          (real_of_int (840 + 200 div 2)
             + (if even i then 0.5 * real_of_int 200 else 0.35 * real_of_int 200)
               * cos (2 * pi * real i / 30),
           real_of_int (40 + 200 div 2)
             + (if even i then 0.5 * real_of_int 200 else 0.35 * real_of_int 200)
               * sin (2 * pi * real i / 30))"
    by blast
  have "(0::nat) < 30" by simp
  with v have "points ! 0 = (1040, 140)" by simp
  with p show ?thesis by blast
qed

section \<open>Properties: sheet row processor\<close>

subsection \<open>Row numbers in file names\<close>

lemma of_char_digit: "d < 10 \<Longrightarrow> (of_char (digit_char d) :: nat) = 48 + d"
  by (simp add: digit_char_def)

lemma str_nat_value: "foldl (\<lambda>a c. 10 * a + (of_char c - 48)) 0 (str_nat n) = n"
proof (induction n rule: str_nat.induct)
  case (1 n)
  show ?case
  proof (cases "n < 10")
    case True
    then show ?thesis
      by (subst str_nat.simps) (simp add: of_char_digit)
  next
    case False
    have "n mod 10 < 10" by simp
    then have d: "(of_char (digit_char (n mod 10)) :: nat) = 48 + n mod 10"
      by (rule of_char_digit)
    show ?thesis
      using False 1 [OF False] d
      by (subst str_nat.simps) simp
  qed
qed

lemma str_nat_inj: "str_nat a = str_nat b \<Longrightarrow> a = b"
  by (metis str_nat_value)

lemma output_path_literal: "output_path n = ''images/edited/edited_'' @ str_nat n @ ''.png''"
  by (simp add: output_path_def output_filename_def path_join_def edited_folder_def)

lemma public_url_literal:
  "public_url b n = b @ ''/images/edited/edited_'' @ str_nat n @ ''.png''"
  by (simp add: public_url_def output_filename_def)

lemma output_path_inj: "output_path a = output_path b \<Longrightarrow> a = b"
  by (simp add: output_path_literal str_nat_inj)

lemma process_row_frame:
  assumes "process_row env b n row w = (r, w')"
  shows "\<exists>new. composed w' = composed w @ new
           \<and> (\<forall>c\<in>set new. has_image_url row \<and> fst c = hd row \<and> snd (snd c) = output_path n)"
    and "cells w' (i, col) \<noteq> cells w (i, col) \<Longrightarrow> i = n \<and> col = 3 \<and> has_image_url row"
    and "\<exists>lines. printed w' = printed w @ lines"
  using assms
  by (auto simp: process_row_def get_item_def has_image_url_def print_line_def Let_def
      IMAGE_URL_COL_def PRICE_COL_def OUTPUT_COL_def hd_conv_nth
      split: sum.splits option.splits if_splits list.splits)

subsection \<open>What a run changes\<close>

lemma process_rows_frame:
  assumes "process_rows env b n rows w = (r, w')"
  shows "(\<exists>new. composed w' = composed w @ new
           \<and> (\<forall>c\<in>set new. \<exists>j<length rows. has_image_url (rows ! j)
                 \<and> fst c = hd (rows ! j) \<and> snd (snd c) = output_path (n + j)))
    \<and> (\<forall>i col. cells w' (i, col) \<noteq> cells w (i, col) \<longrightarrow>
           col = 3 \<and> (\<exists>j<length rows. i = n + j \<and> has_image_url (rows ! j)))
    \<and> (\<exists>lines. printed w' = printed w @ lines)"
  using assms
proof (induction rows arbitrary: n w)
  case Nil
  then show ?case by simp
next
  case (Cons row rows)
  obtain r1 w1 where step: "process_row env b n row w = (r1, w1)"
    by (cases "process_row env b n row w")
  note f = process_row_frame [OF step]
  from f(1) obtain new1 where new1: "composed w1 = composed w @ new1"
    "\<forall>c\<in>set new1. has_image_url row \<and> fst c = hd row \<and> snd (snd c) = output_path n"
    by blast
  from f(3) obtain lines1 where lines1: "printed w1 = printed w @ lines1" by blast
  have new1': "\<forall>c\<in>set new1. \<exists>j<length (row # rows). has_image_url ((row # rows) ! j)
                 \<and> fst c = hd ((row # rows) ! j) \<and> snd (snd c) = output_path (n + j)"
  proof
    fix c assume "c \<in> set new1"
    with new1(2) have "has_image_url ((row # rows) ! 0) \<and> fst c = hd ((row # rows) ! 0)
        \<and> snd (snd c) = output_path (n + 0)" by simp
    then show "\<exists>j<length (row # rows). has_image_url ((row # rows) ! j)
                 \<and> fst c = hd ((row # rows) ! j) \<and> snd (snd c) = output_path (n + j)"
      by (intro exI [of _ 0]) simp
  qed
  have cells1: "col = 3 \<and> (\<exists>j<length (row # rows). i = n + j \<and> has_image_url ((row # rows) ! j))"
    if "cells w1 (i, col) \<noteq> cells w (i, col)" for i col
  proof -
    from f(2) [OF that] have "i = n + 0 \<and> col = 3 \<and> has_image_url ((row # rows) ! 0)" by simp
    then show ?thesis by (intro conjI exI [of _ 0]) simp_all
  qed
  show ?case
  proof (cases r1)
    case (Some e)
    with step Cons.prems have "w' = w1" by simp
    with new1(1) new1' cells1 lines1 show ?thesis by blast
  next
    case None
    with step Cons.prems have rest: "process_rows env b (Suc n) rows w1 = (r, w')" by simp
    from Cons.IH [OF rest] obtain new2 lines2 where
      new2: "composed w' = composed w1 @ new2"
        "\<forall>c\<in>set new2. \<exists>j<length rows. has_image_url (rows ! j)
                 \<and> fst c = hd (rows ! j) \<and> snd (snd c) = output_path (Suc n + j)"
      and cells2: "\<forall>i col. cells w' (i, col) \<noteq> cells w1 (i, col) \<longrightarrow>
           col = 3 \<and> (\<exists>j<length rows. i = Suc n + j \<and> has_image_url (rows ! j))"
      and lines2: "printed w' = printed w1 @ lines2"
      by blast
    have new2': "\<forall>c\<in>set new2. \<exists>j<length (row # rows). has_image_url ((row # rows) ! j)
                 \<and> fst c = hd ((row # rows) ! j) \<and> snd (snd c) = output_path (n + j)"
    proof
      fix c assume "c \<in> set new2"
      with new2(2) obtain j where "j < length rows" "has_image_url (rows ! j)"
        "fst c = hd (rows ! j)" "snd (snd c) = output_path (Suc n + j)" by blast
      then show "\<exists>j<length (row # rows). has_image_url ((row # rows) ! j)
                 \<and> fst c = hd ((row # rows) ! j) \<and> snd (snd c) = output_path (n + j)"
        by (intro exI [of _ "Suc j"]) simp
    qed
    have comp: "composed w' = composed w @ (new1 @ new2)"
      using new1(1) new2(1) by simp
    have compP: "\<forall>c\<in>set (new1 @ new2). \<exists>j<length (row # rows). has_image_url ((row # rows) ! j)
                 \<and> fst c = hd ((row # rows) ! j) \<and> snd (snd c) = output_path (n + j)"
      using new1' new2' by auto
    have cellsP: "\<forall>i col. cells w' (i, col) \<noteq> cells w (i, col) \<longrightarrow>
           col = 3 \<and> (\<exists>j<length (row # rows). i = n + j \<and> has_image_url ((row # rows) ! j))"
    proof (intro allI impI)
      fix i col assume d: "cells w' (i, col) \<noteq> cells w (i, col)"
      show "col = 3 \<and> (\<exists>j<length (row # rows). i = n + j \<and> has_image_url ((row # rows) ! j))"
      proof (cases "cells w1 (i, col) = cells w (i, col)")
        case True
        with d have "cells w' (i, col) \<noteq> cells w1 (i, col)" by simp
        with cells2 obtain j where "col = 3" "j < length rows" "i = Suc n + j"
          "has_image_url (rows ! j)" by blast
        then show ?thesis by (intro conjI exI [of _ "Suc j"]) simp_all
      next
        case False
        then show ?thesis by (rule cells1)
      qed
    qed
    have "printed w' = printed w @ (lines1 @ lines2)"
      using lines1 lines2 by simp
    with comp compP cellsP show ?thesis by blast
  qed
qed

lemma process_row_ok:
  assumes "2 \<le> length row"
  shows "\<exists>w1. process_row env b n row w = (None, w1)
           \<and> (has_image_url row \<longrightarrow> row_processed env b n row w1)"
proof -
  from assms obtain image_url price_text rest where row: "row = image_url # price_text # rest"
    by (cases row; cases "tl row") auto
  show ?thesis
    unfolding row
    by (auto simp: process_row_def get_item_def has_image_url_def row_processed_def
        print_line_def Let_def IMAGE_URL_COL_def PRICE_COL_def
        split: sum.splits option.splits)
qed

lemma row_processed_kept:
  assumes "row_processed env b n row w1"
    and "\<exists>new. composed w' = composed w1 @ new"
    and "\<exists>lines. printed w' = printed w1 @ lines"
    and "cells w' (n, OUTPUT_COL) = cells w1 (n, OUTPUT_COL)"
  shows "row_processed env b n row w'"
  using assms
  by (auto simp: row_processed_def split: sum.splits option.splits)

lemma process_rows_reaches:
  assumes "process_rows env b n rows w = (r, w')" "k < length rows"
    and "\<forall>j\<le>k. 2 \<le> length (rows ! j)" "has_image_url (rows ! k)"
  shows "row_processed env b (n + k) (rows ! k) w'"
  using assms
proof (induction rows arbitrary: n w k)
  case Nil
  then show ?case by simp
next
  case (Cons row rows)
  from Cons.prems(3) have "2 \<le> length ((row # rows) ! 0)" by blast
  then have len: "2 \<le> length row" by simp
  from process_row_ok [OF len] obtain w1 where
    step: "process_row env b n row w = (None, w1)"
    and done1: "has_image_url row \<longrightarrow> row_processed env b n row w1"
    by blast
  from step Cons.prems(1) have rest: "process_rows env b (Suc n) rows w1 = (r, w')" by simp
  show ?case
  proof (cases k)
    case 0
    with Cons.prems(4) done1 have p: "row_processed env b n row w1" by simp
    note f = process_rows_frame [OF rest]
    have "cells w' (n, OUTPUT_COL) = cells w1 (n, OUTPUT_COL)"
    proof (rule ccontr)
      assume "cells w' (n, OUTPUT_COL) \<noteq> cells w1 (n, OUTPUT_COL)"
      with f obtain j where "n = Suc n + j" by blast
      then show False by simp
    qed
    with p f have "row_processed env b n row w'"
      by (intro row_processed_kept [of env b n row w1 w']) blast+
    with 0 show ?thesis by simp
  next
    case (Suc k')
    with Cons.prems have "k' < length rows" "\<forall>j\<le>k'. 2 \<le> length (rows ! j)"
      "has_image_url (rows ! k')" by auto
    from Cons.IH [OF rest this] Suc show ?thesis by simp
  qed
qed


lemma process_sheet_rows:
  assumes "get_all_values env = Inr vals" "process_sheet env b w = (r, w')"
  shows "(w' = w \<and> (\<exists>e. makedirs env edited_folder = Some e))
       \<or> (makedirs env edited_folder = None
          \<and> (\<exists>r1 w1. process_rows env b 1 vals w = (r1, w1) \<and> r = r1
                \<and> cells w' = cells w1 \<and> composed w' = composed w1
                \<and> (\<exists>lines. printed w' = printed w1 @ lines)
                \<and> (r1 = None \<longrightarrow> printed w' = printed w1 @ [''Processing completed.''])))"
proof (cases "makedirs env edited_folder")
  case (Some e)
  with assms have "w' = w" by (simp add: process_sheet_def)
  with Some show ?thesis by blast
next
  case None
  obtain r1 w1 where rows: "process_rows env b 1 vals w = (r1, w1)"
    by (cases "process_rows env b 1 vals w")
  show ?thesis
  proof (cases r1)
    case None': None
    with assms None rows show ?thesis
      by (auto simp: process_sheet_def print_line_def)
  next
    case (Some e)
    with assms None rows show ?thesis
      by (auto simp: process_sheet_def)
  qed
qed

lemma row_processed_sheet:
  assumes vals: "get_all_values env = Inr vals"
    and dirs: "makedirs env edited_folder = None"
    and k: "k < length vals"
    and readable: "\<forall>j\<le>k. 2 \<le> length (vals ! j)"
    and url: "has_image_url (vals ! k)"
    and run: "process_sheet env b w = (r, w')"
  shows "row_processed env b (Suc k) (vals ! k) w'"
proof -
  from process_sheet_rows [OF vals run] dirs obtain r1 w1 where
    rows: "process_rows env b 1 vals w = (r1, w1)"
    and same: "cells w' = cells w1" "composed w' = composed w1"
      "\<exists>lines. printed w' = printed w1 @ lines"
    by auto
  from process_rows_reaches [OF rows k readable url]
  have "row_processed env b (Suc k) (vals ! k) w1" by simp
  then show ?thesis
    using same by (intro row_processed_kept [of env b "Suc k" "vals ! k" w1 w']) simp_all
qed


subsection \<open>Rows without an image URL\<close>

text \<open>
  Claim C4. A row whose image-URL cell is the empty string is skipped: whatever the services do,
  after \<open>process_sheet\<close> every cell of that row (the output cell included) holds what it held
  before, and none of the compositor calls made by the run is for that row: each has a non-empty
  image URL and an output path other than the one of the row.
\<close>

theorem empty_image_url_row_untouched:
  assumes vals: "get_all_values env = Inr vals"
    and k: "k < length vals"
    and empty: "get_item (vals ! k) (IMAGE_URL_COL - 1) = Inr []"
    and run: "process_sheet env BASE_URL w = (r, w')"
  shows "(\<forall>col. cells w' (Suc k, col) = cells w (Suc k, col))
       \<and> (\<exists>new. composed w' = composed w @ new
            \<and> (\<forall>call\<in>set new. fst call \<noteq> []
                  \<and> snd (snd call) \<noteq> ''images/edited/edited_'' @ str_nat (Suc k) @ ''.png''))"
proof -
  from empty have no_url: "\<not> has_image_url (vals ! k)"
    by (auto simp: get_item_def has_image_url_def IMAGE_URL_COL_def hd_conv_nth
        split: if_splits list.splits)
  from process_sheet_rows [OF vals run] show ?thesis
  proof
    assume "w' = w \<and> (\<exists>e. makedirs env edited_folder = Some e)"
    then have "w' = w" by simp
    then have "composed w' = composed w @ []" by simp
    with \<open>w' = w\<close> show ?thesis by (intro conjI exI [of _ "[]"]) simp_all
  next
    assume "makedirs env edited_folder = None
          \<and> (\<exists>r1 w1. process_rows env BASE_URL 1 vals w = (r1, w1) \<and> r = r1
                \<and> cells w' = cells w1 \<and> composed w' = composed w1
                \<and> (\<exists>lines. printed w' = printed w1 @ lines)
                \<and> (r1 = None \<longrightarrow> printed w' = printed w1 @ [''Processing completed.'']))"
    then obtain r1 w1 where rows: "process_rows env BASE_URL 1 vals w = (r1, w1)"
      and same: "cells w' = cells w1" "composed w' = composed w1"
      by blast
    from process_rows_frame [OF rows] obtain new where
      new: "composed w1 = composed w @ new"
        "\<forall>c\<in>set new. \<exists>j<length vals. has_image_url (vals ! j)
             \<and> fst c = hd (vals ! j) \<and> snd (snd c) = output_path (1 + j)"
      and changed: "\<forall>i col. cells w1 (i, col) \<noteq> cells w (i, col) \<longrightarrow>
           col = 3 \<and> (\<exists>j<length vals. i = 1 + j \<and> has_image_url (vals ! j))"
      by blast
    have cells_same: "cells w' (Suc k, col) = cells w (Suc k, col)" for col
    proof (rule ccontr)
      assume "cells w' (Suc k, col) \<noteq> cells w (Suc k, col)"
      with same changed obtain j where "Suc k = 1 + j" "has_image_url (vals ! j)" by metis
      with no_url show False by simp
    qed
    have calls: "fst call \<noteq> [] \<and> snd (snd call) \<noteq> ''images/edited/edited_'' @ str_nat (Suc k) @ ''.png''"
      if "call \<in> set new" for call
    proof -
      from new(2) that obtain j where j: "has_image_url (vals ! j)" "fst call = hd (vals ! j)"
        "snd (snd call) = output_path (1 + j)" by blast
      from j(1,2) have "fst call \<noteq> []"
        by (auto simp: has_image_url_def split: list.splits)
      moreover have "snd (snd call) \<noteq> output_path (Suc k)"
      proof
        assume "snd (snd call) = output_path (Suc k)"
        with j(3) have "1 + j = Suc k" by (metis output_path_inj)
        with j(1) no_url show False by simp
      qed
      ultimately show ?thesis by (simp add: output_path_literal)
    qed
    from cells_same calls new(1) same(2) show ?thesis by auto
  qed
qed

text \<open>
  The three-row sheet \<open>(a.png, $19.99)\<close>, \<open>("", $5)\<close>, \<open>(b.png, $100)\<close>: the output cell of row 2
  stays empty and the compositor is called for rows 1 and 3 only.
\<close>

theorem empty_image_url_row_untouched_witness:
  "cells (snd (process_sheet
        (example_services [[''a.png'', ''$19.99''], ['''', ''$5''], [''b.png'', ''$100'']])
        ''http://h'' empty_world)) (2, 3) = []
   \<and> map (\<lambda>call. snd (snd call)) (composed (snd (process_sheet
        (example_services [[''a.png'', ''$19.99''], ['''', ''$5''], [''b.png'', ''$100'']])
        ''http://h'' empty_world)))
     = [''images/edited/edited_1.png'', ''images/edited/edited_3.png'']"
proof -
  let ?vals = "[[''a.png'', ''$19.99''], ['''', ''$5''], [''b.png'', ''$100'']]"
  let ?env = "example_services ?vals"
  obtain r w' where run: "process_sheet ?env ''http://h'' empty_world = (r, w')"
    by (cases "process_sheet ?env ''http://h'' empty_world")
  have vals: "get_all_values ?env = Inr ?vals"
    by (simp add: example_services_def)
  have k: "(1::nat) < length ?vals" by simp
  have empty: "get_item (?vals ! 1) (IMAGE_URL_COL - 1) = Inr []"
    by (simp add: get_item_def IMAGE_URL_COL_def)
  from empty_image_url_row_untouched [OF vals k empty run]
  have "cells w' (Suc 1, 3) = cells empty_world (Suc 1, 3)" by blast
  then have c: "cells w' (2, 3) = []"
    by (simp add: empty_world_def numeral_2_eq_2)
  have "map (\<lambda>call. snd (snd call)) (composed (snd (process_sheet ?env ''http://h'' empty_world)))
     = [''images/edited/edited_1.png'', ''images/edited/edited_3.png'']"
    by code_simp
  with c run show ?thesis by simp
qed

subsection \<open>Output path and public URL\<close>

text \<open>
  Claim C7. A row at 1-based index \<open>i = k + 1\<close> with a non-empty image URL, whose composition and
  cell update both succeed, in a run that reaches it (the output directory was created and the rows
  up to it have their two cells): the compositor is called with the row's image URL and price text
  and the output path \<open>images/edited/edited_<i>.png\<close>, the output column (3) of the row holds exactly
  \<open><BASE_URL>/images/edited/edited_<i>.png\<close> at the end, and no other column of the row changes.
\<close>

theorem processed_row_output:
  assumes vals: "get_all_values env = Inr vals"
    and dirs: "makedirs env edited_folder = None"
    and k: "k < length vals"
    and readable: "\<forall>j\<le>k. 2 \<le> length (vals ! j)"
    and row: "vals ! k = image_url # price_text # rest"
    and url: "image_url \<noteq> []"
    and composed_ok: "compose_image env image_url price_text
        (''images/edited/edited_'' @ str_nat (Suc k) @ ''.png'') = Inr written"
    and updated_ok: "update_cell env (Suc k) 3
        (BASE_URL @ ''/images/edited/edited_'' @ str_nat (Suc k) @ ''.png'') = None"
    and run: "process_sheet env BASE_URL w = (r, w')"
  shows "(image_url, price_text, ''images/edited/edited_'' @ str_nat (Suc k) @ ''.png'')
           \<in> set (composed w')
       \<and> cells w' (Suc k, 3) = BASE_URL @ ''/images/edited/edited_'' @ str_nat (Suc k) @ ''.png''
       \<and> (\<forall>col. col \<noteq> 3 \<longrightarrow> cells w' (Suc k, col) = cells w (Suc k, col))"
proof -
  from row url have has: "has_image_url (vals ! k)"
    by (simp add: has_image_url_def)
  from row_processed_sheet [OF vals dirs k readable has run]
  have p: "row_processed env BASE_URL (Suc k) (image_url # price_text # rest) w'"
    using row by simp
  from p composed_ok updated_ok
  have a: "(image_url, price_text, ''images/edited/edited_'' @ str_nat (Suc k) @ ''.png'')
           \<in> set (composed w')"
    and b: "cells w' (Suc k, 3)
        = BASE_URL @ ''/images/edited/edited_'' @ str_nat (Suc k) @ ''.png''"
    by (simp_all add: row_processed_def output_path_literal public_url_literal OUTPUT_COL_def)
  have c: "cells w' (Suc k, col) = cells w (Suc k, col)" if "col \<noteq> 3" for col
  proof (rule ccontr)
    assume d: "cells w' (Suc k, col) \<noteq> cells w (Suc k, col)"
    from process_sheet_rows [OF vals run] dirs obtain r1 w1 where
      rows: "process_rows env BASE_URL 1 vals w = (r1, w1)" and same: "cells w' = cells w1"
      by auto
    from process_rows_frame [OF rows] d same have "col = 3" by metis
    with that show False by simp
  qed
  from a b c show ?thesis by blast
qed

text \<open>
  Row 3 of the three-row sheet: composed to \<open>images/edited/edited_3.png\<close>, and its output cell
  holds \<open>http://h/images/edited/edited_3.png\<close>.
\<close>

theorem processed_row_output_witness:
  "(''b.png'', ''$100'', ''images/edited/edited_3.png'')
      \<in> set (composed (snd (process_sheet
            (example_services [[''a.png'', ''$19.99''], ['''', ''$5''], [''b.png'', ''$100'']])
            ''http://h'' empty_world)))
   \<and> cells (snd (process_sheet
            (example_services [[''a.png'', ''$19.99''], ['''', ''$5''], [''b.png'', ''$100'']])
            ''http://h'' empty_world)) (3, 3) = ''http://h/images/edited/edited_3.png''"
proof -
  let ?vals = "[[''a.png'', ''$19.99''], ['''', ''$5''], [''b.png'', ''$100'']]"
  let ?env = "example_services ?vals"
  obtain r w' where run: "process_sheet ?env ''http://h'' empty_world = (r, w')"
    by (cases "process_sheet ?env ''http://h'' empty_world")
  have vals: "get_all_values ?env = Inr ?vals"
    and dirs: "makedirs ?env edited_folder = None"
    by (simp_all add: example_services_def)
  have k: "(2::nat) < length ?vals" by simp
  have readable: "\<forall>j\<le>(2::nat). 2 \<le> length (?vals ! j)"
  proof (intro allI impI)
    fix j :: nat assume "j \<le> 2"
    then have "j = 0 \<or> j = 1 \<or> j = 2" by auto
    then show "2 \<le> length (?vals ! j)" by auto
  qed
  have row: "?vals ! 2 = ''b.png'' # ''$100'' # []" by simp
  have url: "''b.png'' \<noteq> []" by simp
  have three: "str_nat (Suc 2) = ''3''" by code_simp
  have composed_ok: "compose_image ?env ''b.png'' ''$100''
        (''images/edited/edited_'' @ str_nat (Suc 2) @ ''.png'')
      = Inr (''/srv/'' @ ''images/edited/edited_'' @ str_nat (Suc 2) @ ''.png'')"
    by (simp add: example_services_def)
  have updated_ok: "update_cell ?env (Suc 2) 3
        (''http://h'' @ ''/images/edited/edited_'' @ str_nat (Suc 2) @ ''.png'') = None"
    by (simp add: example_services_def)
  from processed_row_output [OF vals dirs k readable row url composed_ok updated_ok run]
  have "(''b.png'', ''$100'', ''images/edited/edited_'' @ str_nat (Suc 2) @ ''.png'')
           \<in> set (composed w')
       \<and> cells w' (Suc 2, 3) = ''http://h'' @ ''/images/edited/edited_'' @ str_nat (Suc 2) @ ''.png''"
    by blast
  then show ?thesis
    unfolding run three by (simp add: numeral_3_eq_3)
qed

subsection \<open>Failures of single rows\<close>




section \<open>Properties: automation run\<close>

lemma update_first_find:
  "find p xs = Some u \<Longrightarrow> p (f u) \<Longrightarrow> find p (update_first p f xs) = Some (f u)"
  by (induction xs) (auto split: if_splits)

lemma update_first_others:
  "(\<And>x. p x \<Longrightarrow> p (f x)) \<Longrightarrow>
     filter (\<lambda>v. \<not> p v) (update_first p f xs) = filter (\<lambda>v. \<not> p v) xs"
  by (induction xs) auto

lemma get_current_user_found:
  "get_current_user decode_access_token token db = Inr u \<Longrightarrow>
     find (\<lambda>v. email v = email u) db = Some u"
  by (auto simp: get_current_user_def find_Some_iff
      split: option.splits if_splits)

text \<open>
  Claim C8 does not hold in its second half: when the automation service answers 500, or cannot
  be reached, \<open>automation_run\<close> raises nothing and returns its usual body, with status
  \<open>started\<close>; the failure shows only as \<open>automationResponse = False\<close>. The counters of the
  caller are incremented.
\<close>

theorem automation_run_hides_failure_counterexample:
  "automation_run example_decode (\<lambda>key. Status 500) ''token-alice'' [alice, bob]
     = (Inr \<lparr>status = ''started'', automationResponse = False\<rparr>,
        [alice\<lparr>monthly_edits := 5, total_edits := 10\<rparr>, bob])
   \<and> automation_run example_decode (\<lambda>key. Unreachable) ''token-alice'' [alice, bob]
     = (Inr \<lparr>status = ''started'', automationResponse = False\<rparr>,
        [alice\<lparr>monthly_edits := 5, total_edits := 10\<rparr>, bob])"
  by (simp add: automation_run_def get_current_user_def example_decode_def alice_def bob_def
      trigger_automation_def increment_usage_def)

text \<open>
  Claim C8, with the response as the code builds it. For every authenticated call, whatever the
  automation service does (any status code, or no answer): the response is the normal one, with
  status \<open>started\<close> and \<open>automationResponse\<close> true exactly when the service answered 200;
  both usage counters of the caller are incremented by 1; the rows of the other users stay as they
  were.
\<close>

theorem automation_run_counts_and_reports:
  assumes auth: "get_current_user decode_access_token token db = Inr current_user"
    and run: "automation_run decode_access_token post token db = (response, db1)"
  shows "response = Inr \<lparr>status = ''started'',
                         automationResponse = (post (api_key current_user) = Status 200)\<rparr>
       \<and> find (\<lambda>u. email u = email current_user) db1
           = Some (current_user\<lparr>monthly_edits := monthly_edits current_user + 1,
                                total_edits := total_edits current_user + 1\<rparr>)
       \<and> filter (\<lambda>u. email u \<noteq> email current_user) db1
           = filter (\<lambda>u. email u \<noteq> email current_user) db"
proof -
  from auth run have resp: "response = Inr \<lparr>status = ''started'',
        automationResponse = trigger_automation post (api_key current_user)\<rparr>"
    and db1: "db1 = increment_usage (email current_user) 1 db"
    by (simp_all add: automation_run_def Let_def)
  have "trigger_automation post (api_key current_user) = (post (api_key current_user) = Status 200)"
    by (simp add: trigger_automation_def split: http_result.splits)
  with resp have a: "response = Inr \<lparr>status = ''started'',
                         automationResponse = (post (api_key current_user) = Status 200)\<rparr>"
    by simp
  from get_current_user_found [OF auth]
  have b: "find (\<lambda>u. email u = email current_user) db1
           = Some (current_user\<lparr>monthly_edits := monthly_edits current_user + 1,
                                total_edits := total_edits current_user + 1\<rparr>)"
    unfolding db1 increment_usage_def by (rule update_first_find) simp
  have c: "filter (\<lambda>u. email u \<noteq> email current_user) db1
           = filter (\<lambda>u. email u \<noteq> email current_user) db"
    unfolding db1 increment_usage_def
    using update_first_others [of "\<lambda>u. email u = email current_user"] by simp
  from a b c show ?thesis by (intro conjI)
qed

text \<open>
  Bob calls while the automation service is unreachable: the response says \<open>started\<close> with
  \<open>automationResponse = False\<close>, his counters go from 0 to 1, and Alice's row is unchanged.
\<close>

theorem automation_run_counts_and_reports_witness:
  "fst (automation_run example_decode (\<lambda>key. Unreachable) ''token-bob'' [alice, bob])
     = Inr \<lparr>status = ''started'', automationResponse = False\<rparr>
   \<and> find (\<lambda>u. email u = ''bob@example.com'')
        (snd (automation_run example_decode (\<lambda>key. Unreachable) ''token-bob'' [alice, bob]))
     = Some (bob\<lparr>monthly_edits := 1, total_edits := 1\<rparr>)
   \<and> filter (\<lambda>u. email u \<noteq> ''bob@example.com'')
        (snd (automation_run example_decode (\<lambda>key. Unreachable) ''token-bob'' [alice, bob]))
     = [alice]"
proof -
  let ?run = "automation_run example_decode (\<lambda>key. Unreachable) ''token-bob'' [alice, bob]"
  have auth: "get_current_user example_decode ''token-bob'' [alice, bob] = Inr bob"
    by (simp add: get_current_user_def example_decode_def alice_def bob_def)
  have run: "?run = (fst ?run, snd ?run)" by simp
  have mail: "email bob = ''bob@example.com''" "email alice = ''alice@example.com''"
    and counts: "monthly_edits bob = 0" "total_edits bob = 0"
    by (simp_all add: alice_def bob_def)
  from automation_run_counts_and_reports [OF auth run]
  show ?thesis by (simp add: mail counts)
qed


section \<open>Properties: API keys\<close>

lemma generate_api_key_fresh:
  "generate_api_key db tokens = Some (key, rest) \<Longrightarrow> key \<notin> api_key ` set db"
  by (induction tokens) (auto simp: find_None_iff split: option.splits)

lemma generate_api_key_returns:
  "key \<in> set tokens \<Longrightarrow> key \<notin> api_key ` set db \<Longrightarrow> generate_api_key db tokens \<noteq> None"
proof (induction tokens)
  case Nil
  then show ?case by simp
next
  case (Cons t tokens)
  show ?case
  proof (cases "find (\<lambda>u. api_key u = t) db")
    case None
    then show ?thesis by simp
  next
    case (Some existing)
    then have "t \<in> api_key ` set db" by (auto simp: find_Some_iff)
    with Cons.prems have "key \<in> set tokens" by auto
    with Cons Some show ?thesis by simp
  qed
qed

lemma unique_ok_append:
  "unique_ok (db @ [u]) =
     (unique_ok db \<and> email u \<notin> email ` set db \<and> api_key u \<notin> api_key ` set db)"
  by (auto simp: unique_ok_def)

lemma update_first_emails:
  "(\<And>x. email (f x) = email x) \<Longrightarrow> map email (update_first p f db) = map email db"
  by (induction db) auto

lemma update_first_keys:
  "api_key ` set (update_first p (\<lambda>u. u\<lparr>api_key := k\<rparr>) db) \<subseteq> insert k (api_key ` set db)"
  by (induction db) auto

lemma update_first_keys_distinct:
  "distinct (map api_key db) \<Longrightarrow> k \<notin> api_key ` set db \<Longrightarrow>
     distinct (map api_key (update_first p (\<lambda>u. u\<lparr>api_key := k\<rparr>) db))"
proof (induction db)
  case Nil
  then show ?case by simp
next
  case (Cons u us)
  show ?case
  proof (cases "p u")
    case True
    with Cons.prems show ?thesis by auto
  next
    case False
    from Cons.prems have "api_key u \<noteq> k" "api_key u \<notin> api_key ` set us" by auto
    with update_first_keys [of p k us]
    have "api_key u \<notin> api_key ` set (update_first p (\<lambda>u. u\<lparr>api_key := k\<rparr>) us)" by blast
    with Cons False show ?thesis by auto
  qed
qed

lemma update_first_unique:
  "unique_ok db \<Longrightarrow> k \<notin> api_key ` set db \<Longrightarrow>
     unique_ok (update_first p (\<lambda>u. u\<lparr>api_key := k\<rparr>) db)"
  by (simp add: unique_ok_def update_first_emails update_first_keys_distinct)

lemma update_first_rest:
  "v \<in> set (update_first p f db) \<Longrightarrow> \<not> p v \<Longrightarrow> (\<And>x. p x \<Longrightarrow> p (f x)) \<Longrightarrow> v \<in> set db"
  by (induction db) (auto split: if_splits)

lemma create_user_cases:
  assumes inv: "unique_ok db"
  shows "create_user hash_password now tokens email_arg password db =
     (case find (\<lambda>u. email u = email_arg) db of
        Some existing_user \<Rightarrow> Some (Inl (ValueError ''User already exists''))
      | None \<Rightarrow>
          (case generate_api_key db tokens of
             None \<Rightarrow> None
           | Some (key, tokens1) \<Rightarrow>
               Some (Inr (\<lparr>user_id = next_id db, email = email_arg,
                       hashed_password = hash_password password, api_key = key,
                       monthly_edits = 0, total_edits = 0, plan_name = ''Free'',
                       plan_renewal_date = None, created_at = now\<rparr>,
                     db @ [\<lparr>user_id = next_id db, email = email_arg,
                       hashed_password = hash_password password, api_key = key,
                       monthly_edits = 0, total_edits = 0, plan_name = ''Free'',
                       plan_renewal_date = None, created_at = now\<rparr>]))))"
proof (cases "find (\<lambda>u. email u = email_arg) db")
  case (Some existing)
  then show ?thesis by (simp add: create_user_def)
next
  case None
  then have mail: "email_arg \<notin> email ` set db" by (auto simp: find_None_iff)
  show ?thesis
  proof (cases "generate_api_key db tokens")
    case none: None
    with None show ?thesis by (simp add: create_user_def)
  next
    case (Some r)
    then obtain key tokens1 where r: "generate_api_key db tokens = Some (key, tokens1)"
      by (cases r) simp
    from generate_api_key_fresh [OF r] have "key \<notin> api_key ` set db" .
    with inv mail have "unique_ok (db @ [\<lparr>user_id = next_id db, email = email_arg,
                       hashed_password = hash_password password, api_key = key,
                       monthly_edits = 0, total_edits = 0, plan_name = ''Free'',
                       plan_renewal_date = None, created_at = now\<rparr>])"
      by (simp add: unique_ok_append)
    with None r show ?thesis by (simp add: create_user_def commit_def Let_def)
  qed
qed

lemma regenerate_api_key_cases:
  assumes inv: "unique_ok db"
  shows "regenerate_api_key tokens email_arg db =
     (case find (\<lambda>u. email u = email_arg) db of
        None \<Rightarrow> Some (Inl (ValueError ''User not found''))
      | Some found \<Rightarrow>
          (case generate_api_key db tokens of
             None \<Rightarrow> None
           | Some (new_key, tokens1) \<Rightarrow>
               Some (Inr (new_key, update_first (\<lambda>u. email u = email_arg)
                               (\<lambda>u. u\<lparr>api_key := new_key\<rparr>) db))))"
proof (cases "find (\<lambda>u. email u = email_arg) db")
  case None
  then show ?thesis by (simp add: regenerate_api_key_def)
next
  case (Some found)
  show ?thesis
  proof (cases "generate_api_key db tokens")
    case None
    with Some show ?thesis by (simp add: regenerate_api_key_def)
  next
    case gen: (Some r)
    then obtain key tokens1 where r: "generate_api_key db tokens = Some (key, tokens1)"
      by (cases r) simp
    from generate_api_key_fresh [OF r] inv
    have "unique_ok (update_first (\<lambda>u. email u = email_arg) (\<lambda>u. u\<lparr>api_key := key\<rparr>) db)"
      by (simp add: update_first_unique)
    with Some r show ?thesis by (simp add: regenerate_api_key_def commit_def)
  qed
qed

text \<open>
  Claim C9. On a table whose emails and API keys are unique: the key that the generation loop
  returns is the key of no existing user, and the loop returns as soon as the generator yields such
  a key; \<open>create_user\<close> stores the new user with a key that no other user has, and the table
  stays unique; \<open>regenerate_api_key\<close> returns the key it stores for the user, a key that no
  user had and that no other user has afterwards, and the table stays unique; the only errors
  that the two functions return are \<open>User already exists\<close> for an email that is taken and
  \<open>User not found\<close> for an email that is not in the table, never one caused by a key collision.
\<close>

theorem api_keys_stay_unique:
  assumes inv: "unique_ok db"
  shows "(\<forall>key rest. generate_api_key db tokens = Some (key, rest) \<longrightarrow> key \<notin> api_key ` set db)
   \<and> ((\<exists>key\<in>set tokens. key \<notin> api_key ` set db) \<longrightarrow> generate_api_key db tokens \<noteq> None)
   \<and> (\<forall>new_user db1.
         create_user hash_password now tokens email_arg password db = Some (Inr (new_user, db1)) \<longrightarrow>
           api_key new_user \<notin> api_key ` set db \<and> db1 = db @ [new_user] \<and> unique_ok db1)
   \<and> (\<forall>e. create_user hash_password now tokens email_arg password db = Some (Inl e) \<longrightarrow>
           e = ValueError ''User already exists'' \<and> email_arg \<in> email ` set db)
   \<and> (\<forall>new_key db1.
         regenerate_api_key tokens email_arg db = Some (Inr (new_key, db1)) \<longrightarrow>
           new_key \<notin> api_key ` set db \<and> unique_ok db1
           \<and> map_option api_key (find (\<lambda>u. email u = email_arg) db1) = Some new_key
           \<and> (\<forall>u\<in>set db1. email u \<noteq> email_arg \<longrightarrow> u \<in> set db \<and> api_key u \<noteq> new_key))
   \<and> (\<forall>e. regenerate_api_key tokens email_arg db = Some (Inl e) \<longrightarrow>
           e = ValueError ''User not found'' \<and> email_arg \<notin> email ` set db)"
proof -
  have a: "\<forall>key rest. generate_api_key db tokens = Some (key, rest) \<longrightarrow> key \<notin> api_key ` set db"
    using generate_api_key_fresh by blast
  have b: "(\<exists>key\<in>set tokens. key \<notin> api_key ` set db) \<longrightarrow> generate_api_key db tokens \<noteq> None"
    using generate_api_key_returns by blast
  have c: "api_key new_user \<notin> api_key ` set db \<and> db1 = db @ [new_user] \<and> unique_ok db1"
    if "create_user hash_password now tokens email_arg password db = Some (Inr (new_user, db1))"
    for new_user db1
  proof -
    from that obtain key tokens1 where gen: "generate_api_key db tokens = Some (key, tokens1)"
      and none: "find (\<lambda>u. email u = email_arg) db = None"
      and u: "api_key new_user = key" "email new_user = email_arg" and db1: "db1 = db @ [new_user]"
      unfolding create_user_cases [OF inv]
      by (auto split: option.splits)
    from generate_api_key_fresh [OF gen] u have fresh: "api_key new_user \<notin> api_key ` set db"
      by simp
    from none u have "email new_user \<notin> email ` set db" by (auto simp: find_None_iff)
    with inv fresh db1 have "unique_ok db1" by (simp add: unique_ok_append)
    with fresh db1 show ?thesis by simp
  qed
  have d: "e = ValueError ''User already exists'' \<and> email_arg \<in> email ` set db"
    if "create_user hash_password now tokens email_arg password db = Some (Inl e)" for e
    using that unfolding create_user_cases [OF inv]
    by (auto simp: find_Some_iff split: option.splits)
  have e: "new_key \<notin> api_key ` set db \<and> unique_ok db1
           \<and> map_option api_key (find (\<lambda>u. email u = email_arg) db1) = Some new_key
           \<and> (\<forall>u\<in>set db1. email u \<noteq> email_arg \<longrightarrow> u \<in> set db \<and> api_key u \<noteq> new_key)"
    if "regenerate_api_key tokens email_arg db = Some (Inr (new_key, db1))" for new_key db1
  proof -
    from that obtain found tokens1 where found: "find (\<lambda>u. email u = email_arg) db = Some found"
      and gen: "generate_api_key db tokens = Some (new_key, tokens1)"
      and db1: "db1 = update_first (\<lambda>u. email u = email_arg) (\<lambda>u. u\<lparr>api_key := new_key\<rparr>) db"
      unfolding regenerate_api_key_cases [OF inv]
      by (auto split: option.splits)
    from generate_api_key_fresh [OF gen] have fresh: "new_key \<notin> api_key ` set db" .
    from inv fresh have uniq: "unique_ok db1"
      unfolding db1 by (rule update_first_unique)
    from found have "email found = email_arg" by (auto simp: find_Some_iff)
    then have "find (\<lambda>u. email u = email_arg) db1 = Some (found\<lparr>api_key := new_key\<rparr>)"
      unfolding db1 by (intro update_first_find [OF found]) simp
    then have stored: "map_option api_key (find (\<lambda>u. email u = email_arg) db1) = Some new_key"
      by simp
    have others: "u \<in> set db \<and> api_key u \<noteq> new_key"
      if "u \<in> set db1" "email u \<noteq> email_arg" for u
    proof -
      from that have "u \<in> set db"
        unfolding db1 by (intro update_first_rest [of u "\<lambda>u. email u = email_arg"
              "\<lambda>u. u\<lparr>api_key := new_key\<rparr>" db]) simp_all
      with fresh show ?thesis by auto
    qed
    from fresh uniq stored others show ?thesis by blast
  qed
  have f: "e = ValueError ''User not found'' \<and> email_arg \<notin> email ` set db"
    if "regenerate_api_key tokens email_arg db = Some (Inl e)" for e
    using that unfolding regenerate_api_key_cases [OF inv]
    by (auto simp: find_None_iff split: option.splits)
  from a b c d e f show ?thesis by blast
qed

text \<open>
  Alice and Bob hold the keys \<open>aa\<close> and \<open>bb\<close>, and the generator yields \<open>aa\<close>, \<open>bb\<close>,
  \<open>cc\<close>, \<open>dd\<close>: the loop skips the two collisions and returns \<open>cc\<close>; Carol is created with
  that key, and Alice's key is regenerated to it, the table staying unique in both cases.
\<close>

theorem api_keys_stay_unique_witness:
  "generate_api_key [alice, bob] [''aa'', ''bb'', ''cc'', ''dd''] = Some (''cc'', [''dd''])
   \<and> ''cc'' \<notin> api_key ` set [alice, bob]
   \<and> create_user (\<lambda>p. p) 7 [''aa'', ''bb'', ''cc'', ''dd''] ''carol@example.com'' ''pw'' [alice, bob]
       = Some (Inr (carol, [alice, bob, carol]))
   \<and> unique_ok [alice, bob, carol]
   \<and> create_user (\<lambda>p. p) 7 [''aa'', ''bb'', ''cc'', ''dd''] ''alice@example.com'' ''pw'' [alice, bob]
       = Some (Inl (ValueError ''User already exists''))
   \<and> regenerate_api_key [''aa'', ''bb'', ''cc'', ''dd''] ''alice@example.com'' [alice, bob]
       = Some (Inr (''cc'', [alice\<lparr>api_key := ''cc''\<rparr>, bob]))
   \<and> unique_ok [alice\<lparr>api_key := ''cc''\<rparr>, bob]
   \<and> map_option api_key (find (\<lambda>u. email u = ''alice@example.com'') [alice\<lparr>api_key := ''cc''\<rparr>, bob])
       = Some ''cc''"
proof -
  let ?tokens = "[''aa'', ''bb'', ''cc'', ''dd'']"
  have inv: "unique_ok [alice, bob]"
    by (simp add: unique_ok_def alice_def bob_def)
  have gen: "generate_api_key [alice, bob] ?tokens = Some (''cc'', [''dd''])"
    by (simp add: alice_def bob_def)
  have fresh: "\<exists>key\<in>set ?tokens. key \<notin> api_key ` set [alice, bob]"
    by (simp add: alice_def bob_def)
  have exists: "create_user (\<lambda>p. p) 7 ?tokens ''alice@example.com'' ''pw'' [alice, bob]
       = Some (Inl (ValueError ''User already exists''))"
    by (simp add: create_user_def alice_def bob_def)
  have regen: "regenerate_api_key ?tokens ''alice@example.com'' [alice, bob]
       = Some (Inr (''cc'', [alice\<lparr>api_key := ''cc''\<rparr>, bob]))"
    by (simp add: regenerate_api_key_def commit_def unique_ok_def alice_def bob_def)
  have created: "create_user (\<lambda>p. p) 7 ?tokens ''carol@example.com'' ''pw'' [alice, bob]
       = Some (Inr (carol, [alice, bob, carol]))"
    by (simp add: create_user_def commit_def unique_ok_def next_id_def alice_def bob_def carol_def
        Let_def numeral_3_eq_3)
  from api_keys_stay_unique [OF inv, of ?tokens "\<lambda>p. p" 7 "''carol@example.com''" "''pw''"] created
  have c: "unique_ok [alice, bob, carol]" by blast
  note t = api_keys_stay_unique [OF inv, of ?tokens "\<lambda>p. p" 7 "''alice@example.com''" "''pw''"]
  from t gen have a: "''cc'' \<notin> api_key ` set [alice, bob]" by blast
  from t regen have b: "unique_ok [alice\<lparr>api_key := ''cc''\<rparr>, bob]
      \<and> map_option api_key (find (\<lambda>u. email u = ''alice@example.com'') [alice\<lparr>api_key := ''cc''\<rparr>, bob])
       = Some ''cc''" by blast
  from gen a created c exists regen b show ?thesis by (intro conjI) simp_all
qed

end
